theory Spec2Isabelle
  imports Complex_Main "HOL-Library.Word"
begin

section \<open>The reconnecting WebSocket client (class GLaDOSWebSocket)\<close>

subsection \<open>JavaScript values\<close>

text \<open>
  Values that travel through the client: parsed JSON, the token handed to \<open>connect\<close>, and
  the data objects built for \<open>emit\<close>.  Numbers are IEEE doubles in the source; they are
  modelled by rationals.  Every number the client computes itself is
  \<open>1000 * 1.5 ^ k\<close> below the cap of 30000 (so \<open>k \<le> 8\<close>, exactly representable as a
  double) or the cap itself, so nothing is lost on the values the statements below
  speak about.  An object is the list of its own properties, each named once.
\<close>

datatype jsv =
    Undefined
  | Null
  | Bool bool
  | Num rat
  | Str string
  | Arr "jsv list"
  | Obj "(string \<times> jsv) list"

text \<open>
  Reading a property (\<open>msg.type\<close>, \<open>msg.status\<close>, ...) of a value that is neither
  \<open>null\<close> nor \<open>undefined\<close>.  Only the names \<open>type\<close>, \<open>status\<close>, \<open>user_id\<close>,
  \<open>username\<close> and \<open>message\<close> are ever read, and none of them is a property of the
  prototypes of strings, numbers, booleans, arrays or objects, so a value other than an
  object with that own property yields \<open>undefined\<close>.
\<close>

fun get_prop :: "jsv \<Rightarrow> string \<Rightarrow> jsv" where
  "get_prop (Obj fs) k = (case map_of fs k of None \<Rightarrow> Undefined | Some v \<Rightarrow> v)"
| "get_prop _ k = Undefined"

text \<open>JavaScript truthiness (\<open>NaN\<close> does not occur among rationals).\<close>

fun truthy :: "jsv \<Rightarrow> bool" where
  "truthy Undefined = False"
| "truthy Null = False"
| "truthy (Bool b) = b"
| "truthy (Num r) = (r \<noteq> 0)"
| "truthy (Str s) = (s \<noteq> [])"
| "truthy (Arr _) = True"
| "truthy (Obj _) = True"

text \<open>
  \<open>this.listeners\<close> is created as \<open>{}\<close>, an ordinary object: a lookup
  \<open>this.listeners[event]\<close> that finds no own property falls through to
  \<open>Object.prototype\<close>.  For the twelve names below it finds a member of the prototype,
  which is truthy and has no \<open>forEach\<close>, \<open>push\<close> or \<open>filter\<close>, so the method call
  that follows raises a TypeError.
\<close>

definition object_prototype_keys :: "string list" where
  "object_prototype_keys =
     [''constructor'', ''toString'', ''toLocaleString'', ''valueOf'', ''hasOwnProperty'',
      ''isPrototypeOf'', ''propertyIsEnumerable'', ''__proto__'', ''__defineGetter__'',
      ''__defineSetter__'', ''__lookupGetter__'', ''__lookupSetter__'']"

text \<open>
  Whether a value used as a property key names a member of \<open>Object.prototype\<close>.  The key
  is the value's string conversion: a string is its own key; a one-element array
  converts to the conversion of its element; every other value converts to a string
  that is none of the twelve names (\<open>undefined\<close>, \<open>null\<close>, \<open>true\<close>, a numeral,
  \<open>[object Object]\<close>, or a string that is empty or contains a comma).
\<close>

fun inherited_key :: "jsv \<Rightarrow> bool" where
  "inherited_key (Str k) = (k \<in> set object_prototype_keys)"
| "inherited_key (Arr [x]) = inherited_key x"
| "inherited_key _ = False"

text \<open>
  Whether the conversion of a value to a property key raises a TypeError.  It does for an
  object with an own property \<open>toString\<close> (which, coming from JSON, is not callable,
  and \<open>Object.prototype.valueOf\<close> returns the object itself), and for an array one of
  whose elements does (\<open>join\<close> converts each element other than \<open>null\<close>).
\<close>

fun key_conversion_raises :: "jsv \<Rightarrow> bool" where
  "key_conversion_raises (Obj fs) = (''toString'' \<in> fst ` set fs)"
| "key_conversion_raises (Arr xs) = list_ex key_conversion_raises xs"
| "key_conversion_raises _ = False"

text \<open>
  Whether a call \<open>this.emit(event, data)\<close> raises before it reaches any listener.
\<close>

definition emit_raises :: "jsv \<Rightarrow> bool" where
  "emit_raises event = (key_conversion_raises event \<or> inherited_key event)"

subsection \<open>State of the object and of the platform\<close>

datatype ready_state = CONNECTING | OPEN | CLOSING | CLOSED

text \<open>
  What the client does to the outside, in the order it does it.  \<open>Emit name data\<close> is a
  call \<open>this.emit(name, data)\<close> with a literal event name; \<open>Forward ev msg\<close> is the
  call \<open>this.emit(msg.type, msg)\<close> of the message handler, whose event name is whatever
  value the message carries.  How \<open>emit\<close> delivers a call to the registered listeners
  is the subject of the event emitter section.  Calls of \<open>console\<close> are left out.
\<close>

datatype effect =
    Emit string jsv
  | Forward jsv jsv
  | NewWebSocket string
  | WsSend nat jsv
  | WsClose nat nat string
  | SetTimeout rat

text \<open>
  The fields of the object (\<open>url\<close> to \<open>token\<close>), followed by the part of the platform
  they interact with: the ready state of every socket created so far (a socket is
  referred to by its index, \<open>this.ws\<close> holds such an index or is \<open>null\<close>), the number of
  pending timers, whether \<open>new WebSocket(url)\<close> raises for this URL, whether
  \<open>ws.send(JSON.stringify(message))\<close> raises, and the log of effects.
\<close>

record state =
  url :: string
  ws :: "nat option"
  reconnectDelay :: rat
  maxReconnectDelay :: rat
  shouldReconnect :: bool
  authenticated :: bool
  connectionAttempts :: nat
  token :: jsv
  sockets :: "ready_state list"
  timers :: nat
  url_rejected :: bool
  send_raises :: bool
  effects :: "effect list"

definition constructor :: "string \<Rightarrow> bool \<Rightarrow> bool \<Rightarrow> state" where
  "constructor u rejected raises =
     \<lparr> url = u, ws = None, reconnectDelay = 1000, maxReconnectDelay = 30000,
       shouldReconnect = True, authenticated = False, connectionAttempts = 0,
       token = Undefined, sockets = [], timers = 0, url_rejected = rejected,
       send_raises = raises, effects = [] \<rparr>"

definition do_effect :: "effect \<Rightarrow> state \<Rightarrow> state" where
  "do_effect e s = s\<lparr>effects := effects s @ [e]\<rparr>"

definition message_obj :: "string \<Rightarrow> jsv" where
  "message_obj text = Obj [(''message'', Str text)]"

subsection \<open>Methods\<close>

definition connect :: "jsv \<Rightarrow> state \<Rightarrow> state" where
  "connect tok s =
     (let s1 = s\<lparr>token := tok, shouldReconnect := True\<rparr> in
      if url_rejected s1
      then do_effect (Emit ''error'' (message_obj ''Failed to create WebSocket connection'')) s1
      else do_effect (NewWebSocket (url s1))
             (s1\<lparr>ws := Some (length (sockets s1)), sockets := sockets s1 @ [CONNECTING]\<rparr>))"

definition ws_open :: "state \<Rightarrow> bool" where
  "ws_open s =
     (case ws s of None \<Rightarrow> False
      | Some i \<Rightarrow> i < length (sockets s) \<and> sockets s ! i = OPEN)"

definition send :: "jsv \<Rightarrow> state \<Rightarrow> bool \<times> state" where
  "send message s =
     (case ws s of
        None \<Rightarrow> (False, s)
      | Some i \<Rightarrow>
          if i < length (sockets s) \<and> sockets s ! i = OPEN
          then (if send_raises s
                then (False, do_effect (Emit ''error'' (message_obj ''Failed to send message'')) s)
                else (True, do_effect (WsSend i message) s))
          else (False, s))"

definition sendText :: "jsv \<Rightarrow> state \<Rightarrow> bool \<times> state" where
  "sendText text s = send (Obj [(''type'', Str ''text''), (''message'', text)]) s"

text \<open>A default parameter value applies when the argument is \<open>undefined\<close>.\<close>

definition default_arg :: "jsv \<Rightarrow> jsv \<Rightarrow> jsv" where
  "default_arg v d = (if v = Undefined then d else v)"

definition sendAudio :: "jsv \<Rightarrow> jsv \<Rightarrow> jsv \<Rightarrow> state \<Rightarrow> bool \<times> state" where
  "sendAudio audioData format sampleRate s =
     send (Obj [(''type'', Str ''audio''), (''data'', audioData),
                (''format'', default_arg format (Str ''pcm_s16le'')),
                (''sampleRate'', default_arg sampleRate (Num 16000))]) s"

definition requestHistory :: "jsv \<Rightarrow> jsv \<Rightarrow> state \<Rightarrow> bool \<times> state" where
  "requestHistory offset limit s =
     send (Obj [(''type'', Str ''history_request''),
                (''offset'', default_arg offset (Num 0)),
                (''limit'', default_arg limit (Num 50))]) s"

definition isReady :: "state \<Rightarrow> bool" where
  "isReady s = (ws_open s \<and> authenticated s)"

text \<open>
  \<open>ws.close(1000, 'Client disconnecting')\<close>: the platform moves a socket that is
  connecting or open to \<open>CLOSING\<close>; its close event comes later, as an input of its own.
\<close>

definition ws_close :: "nat \<Rightarrow> state \<Rightarrow> state" where
  "ws_close i s =
     do_effect (WsClose i 1000 ''Client disconnecting'')
       (if i < length (sockets s) \<and> (sockets s ! i = CONNECTING \<or> sockets s ! i = OPEN)
        then s\<lparr>sockets := (sockets s)[i := CLOSING]\<rparr> else s)"

definition disconnect :: "bool \<Rightarrow> state \<Rightarrow> state" where
  "disconnect permanent s =
     (let s1 = s\<lparr>shouldReconnect := \<not> permanent\<rparr> in
      case ws s1 of
        None \<Rightarrow> s1
      | Some i \<Rightarrow> (ws_close i s1)\<lparr>ws := None\<rparr>)"

subsection \<open>Event handlers installed by setupEventHandlers\<close>

definition onopen :: "state \<Rightarrow> state" where
  "onopen s =
     (let s1 = s\<lparr>connectionAttempts := 0, reconnectDelay := 1000\<rparr>;
          s2 = snd (send (Obj [(''type'', Str ''auth''), (''token'', token s1)]) s1)
      in do_effect (Emit ''connected'' Undefined) s2)"

text \<open>
  \<open>event.data\<close> of a message event, seen through \<open>JSON.parse\<close>: either the parse raises
  a SyntaxError or it returns a value (never \<open>undefined\<close>).  Reading \<open>msg.type\<close> raises a
  TypeError when the value is \<open>null\<close>, which sends \<open>null\<close> to the \<open>catch\<close> block as well.
\<close>

datatype payload = Unparseable | Parsed jsv

definition parse_failure :: "state \<Rightarrow> state" where
  "parse_failure s = do_effect (Emit ''error'' (message_obj ''Failed to parse server message'')) s"

text \<open>
  The body of the \<open>try\<close> block for a parsed value that is not \<open>null\<close>.  The last call,
  \<open>this.emit(msg.type, msg)\<close>, raises when the event name cannot be converted to a key
  or is inherited from \<open>Object.prototype\<close>; the \<open>catch\<close> block then reports a parse
  failure.
\<close>

definition handle_message :: "jsv \<Rightarrow> state \<Rightarrow> state" where
  "handle_message msg s =
     (let s1 =
        (if get_prop msg ''type'' = Str ''auth_response''
         then (if get_prop msg ''status'' = Str ''ok''
               then do_effect
                      (Emit ''authenticated''
                         (Obj [(''user_id'', get_prop msg ''user_id''),
                               (''username'', get_prop msg ''username'')]))
                      (s\<lparr>authenticated := True\<rparr>)
               else do_effect
                      (Emit ''auth_failed''
                         (Obj [(''message'',
                                if truthy (get_prop msg ''message'') then get_prop msg ''message''
                                else Str ''Authentication failed'')]))
                      (s\<lparr>authenticated := False, shouldReconnect := False\<rparr>))
         else s);
          s2 = do_effect (Forward (get_prop msg ''type'') msg) s1
      in if emit_raises (get_prop msg ''type'') then parse_failure s2 else s2)"

definition onmessage :: "payload \<Rightarrow> state \<Rightarrow> state" where
  "onmessage p s =
     (case p of
        Unparseable \<Rightarrow> parse_failure s
      | Parsed Null \<Rightarrow> parse_failure s
      | Parsed Undefined \<Rightarrow> parse_failure s
      | Parsed msg \<Rightarrow> handle_message msg s)"

definition onerror :: "state \<Rightarrow> state" where
  "onerror s = do_effect (Emit ''error'' (message_obj ''WebSocket connection error'')) s"

definition scheduleReconnect :: "state \<Rightarrow> state" where
  "scheduleReconnect s =
     (let s1 = s\<lparr>connectionAttempts := connectionAttempts s + 1\<rparr>;
          delay = min (reconnectDelay s1 * (3 / 2) ^ (connectionAttempts s1 - 1))
                      (maxReconnectDelay s1);
          s2 = do_effect
                 (Emit ''reconnecting''
                    (Obj [(''delay'', Num delay),
                          (''attempt'', Num (of_nat (connectionAttempts s1)))])) s1
      in do_effect (SetTimeout delay) (s2\<lparr>timers := timers s2 + 1\<rparr>))"

definition onclose :: "nat \<Rightarrow> string \<Rightarrow> state \<Rightarrow> state" where
  "onclose code reason s =
     (let s1 = do_effect
                 (Emit ''disconnected''
                    (Obj [(''code'', Num (of_nat code)), (''reason'', Str reason)]))
                 (s\<lparr>authenticated := False\<rparr>)
      in if shouldReconnect s1 then scheduleReconnect s1 else s1)"

text \<open>The callback handed to \<open>setTimeout\<close> by \<open>scheduleReconnect\<close>.\<close>

definition timer_callback :: "state \<Rightarrow> state" where
  "timer_callback s =
     (if shouldReconnect s \<and> truthy (token s) then connect (token s) s else s)"

subsection \<open>Executions\<close>

text \<open>
  An execution is a sequence of inputs: calls made by the caller and events delivered by
  the platform.  A socket event names the socket it belongs to; the handlers installed
  by \<open>setupEventHandlers\<close> close over the object, not over the socket, so the event
  of a socket that \<open>this.ws\<close> no longer refers to runs the same handler.  The platform
  delivers \<open>open\<close> to a connecting socket and makes it \<open>OPEN\<close> first, delivers
  \<open>message\<close> to an open socket, \<open>error\<close> and \<open>close\<close> to a socket that is not yet
  closed (\<open>close\<close> makes it \<open>CLOSED\<close> first), and runs a timer callback once per
  pending timer.  Listener callbacks that call back into the client are inputs of their
  own, placed after the input during which they ran.
\<close>

datatype input =
    Connect jsv
  | Disconnect bool
  | SendText jsv
  | SendAudio jsv jsv jsv
  | RequestHistory jsv jsv
  | OnOpen nat
  | OnMessage nat payload
  | OnError nat
  | OnClose nat nat string
  | TimerFired

fun step :: "input \<Rightarrow> state \<Rightarrow> state" where
  "step (Connect tok) s = connect tok s"
| "step (Disconnect permanent) s = disconnect permanent s"
| "step (SendText text) s = snd (sendText text s)"
| "step (SendAudio a f r) s = snd (sendAudio a f r s)"
| "step (RequestHistory offset limit) s = snd (requestHistory offset limit s)"
| "step (OnOpen i) s =
     (if i < length (sockets s) \<and> sockets s ! i = CONNECTING
      then onopen (s\<lparr>sockets := (sockets s)[i := OPEN]\<rparr>) else s)"
| "step (OnMessage i p) s =
     (if i < length (sockets s) \<and> sockets s ! i = OPEN then onmessage p s else s)"
| "step (OnError i) s =
     (if i < length (sockets s) \<and> sockets s ! i \<noteq> CLOSED then onerror s else s)"
| "step (OnClose i code reason) s =
     (if i < length (sockets s) \<and> sockets s ! i \<noteq> CLOSED
      then onclose code reason (s\<lparr>sockets := (sockets s)[i := CLOSED]\<rparr>) else s)"
| "step TimerFired s =
     (if 0 < timers s then timer_callback (s\<lparr>timers := timers s - 1\<rparr>) else s)"

definition run :: "input list \<Rightarrow> state \<Rightarrow> state" where
  "run ins s = fold step ins s"

text \<open>The effects added between an earlier state \<open>s\<close> and a later state \<open>s'\<close>.\<close>

definition new_effects :: "state \<Rightarrow> state \<Rightarrow> effect list" where
  "new_effects s s' = drop (length (effects s)) (effects s')"

text \<open>The delays handed to \<open>setTimeout\<close>, in order.\<close>

fun delays :: "effect list \<Rightarrow> rat list" where
  "delays [] = []"
| "delays (SetTimeout d # es) = d # delays es"
| "delays (_ # es) = delays es"

text \<open>The delay the specification prescribes for the \<open>n\<close>-th consecutive failure.\<close>

definition backoff :: "nat \<Rightarrow> rat" where
  "backoff n = min (1000 * (3 / 2) ^ (n - 1)) 30000"



section \<open>The event emitter (on, off, emit)\<close>

text \<open>
  A callback runs on the application's own state \<open>'w\<close> and either returns or throws;
  what it did before throwing stays done.  A callback has an identity (\<open>off\<close> compares
  callbacks with \<open>!==\<close>), here a number.  The table \<open>listeners\<close> holds the own
  properties of \<open>this.listeners\<close>.
\<close>

datatype 'w outcome = Returned 'w | Threw 'w

type_synonym 'w callback = "nat \<times> (jsv \<Rightarrow> 'w \<Rightarrow> 'w outcome)"

type_synonym 'w listeners = "string \<Rightarrow> 'w callback list option"

datatype 'w slot = Absent | Handlers "'w callback list" | Inherited

definition lookup :: "'w listeners \<Rightarrow> string \<Rightarrow> 'w slot" where
  "lookup ls event =
     (case ls event of
        Some cbs \<Rightarrow> Handlers cbs
      | None \<Rightarrow> if event \<in> set object_prototype_keys then Inherited else Absent)"

datatype js_error = TypeError


definition off :: "string \<Rightarrow> 'w callback \<Rightarrow> 'w listeners \<Rightarrow> js_error + 'w listeners" where
  "off event cb ls =
     (case lookup ls event of
        Absent \<Rightarrow> Inr ls
      | Handlers cbs \<Rightarrow> Inr (ls(event \<mapsto> filter (\<lambda>c. fst c \<noteq> fst cb) cbs))
      | Inherited \<Rightarrow> Inl TypeError)"

text \<open>
  The \<open>forEach\<close> of \<open>emit\<close> with its \<open>try\<close>/\<open>catch\<close> around each call.  Besides the
  application state it returns the identities of the callbacks it called, in the order
  of the calls.
\<close>

fun forEach_callback :: "'w callback list \<Rightarrow> jsv \<Rightarrow> 'w \<times> nat list \<Rightarrow> 'w \<times> nat list" where
  "forEach_callback [] data (w, called) = (w, called)"
| "forEach_callback (cb # cbs) data (w, called) =
     (case snd cb data w of
        Returned w' \<Rightarrow> forEach_callback cbs data (w', called @ [fst cb])
      | Threw w' \<Rightarrow> forEach_callback cbs data (w', called @ [fst cb]))"

definition emit :: "'w listeners \<Rightarrow> string \<Rightarrow> jsv \<Rightarrow> 'w \<Rightarrow> js_error + 'w \<times> nat list" where
  "emit ls event data w =
     (case lookup ls event of
        Absent \<Rightarrow> Inr (w, [])
      | Handlers cbs \<Rightarrow> Inr (forEach_callback cbs data (w, []))
      | Inherited \<Rightarrow> Inl TypeError)"


subsection \<open>Scenarios and invariants used in the statements\<close>

text \<open>
  \<open>n\<close> connections in a row that fail before they open: the caller connects, each socket
  closes abnormally, each retry timer fires and creates the next socket.
\<close>

definition failing_connections :: "nat \<Rightarrow> input list" where
  "failing_connections n =
     Connect (Str ''jwt'') # concat (map (\<lambda>i. [OnClose i 1006 [], TimerFired]) [0..<n])"

text \<open>
  The two fields of the backoff that no method changes after construction (\<open>onopen\<close>
  assigns 1000 to a field that already holds 1000).
\<close>

definition configured :: "state \<Rightarrow> bool" where
  "configured s = (reconnectDelay s = 1000 \<and> maxReconnectDelay s = 30000)"

text \<open>
  A session with a retry timer pending: the first socket drops before it opens, the
  caller connects again by hand before the timer fires, and the second socket opens.
  Then the bridge answers the \<open>auth\<close> envelope with status \<open>error\<close>.
\<close>

definition pending_retry_session :: state where
  "pending_retry_session =
     run [Connect (Str ''jwt''), OnClose 0 1006 [], Connect (Str ''jwt''), OnOpen 1]
       (constructor ''ws://bridge'' False False)"

definition auth_rejection :: input where
  "auth_rejection =
     OnMessage 1 (Parsed (Obj [(''type'', Str ''auth_response''), (''status'', Str ''error'')]))"

text \<open>The same session after the bridge has closed the second socket.\<close>

definition pending_retry_session_closed :: state where
  "pending_retry_session_closed = step (OnClose 1 1000 []) (step auth_rejection pending_retry_session)"

subsection \<open>Sample callbacks\<close>

text \<open>
  Callbacks on an application state that is a list of numbers: each appends its own
  identity; the second kind throws after doing so.
\<close>

definition logging :: "nat \<Rightarrow> nat list callback" where
  "logging i = (i, \<lambda>data w. Returned (w @ [i]))"

definition throwing :: "nat \<Rightarrow> nat list callback" where
  "throwing i = (i, \<lambda>data w. Threw (w @ [i]))"

definition three_listeners :: "nat list callback list" where
  "three_listeners = [logging 1, throwing 2, logging 3]"

section \<open>The TCP proxy (handleConnection)\<close>

text \<open>
  The repository holds the proxy twice: \<open>src/k8s-proxy/main.go\<close>, which synchronises the
  two copy directions with a \<open>sync.WaitGroup\<close>, and a second \<open>main.go\<close>
  (\<open>src/unnamed/part_004\<close>), which sets socket options, runs one direction in the handler
  itself and synchronises with a channel.  Both are modelled, as the statements each
  goroutine executes, on one small machine: a thread executes its next statement when a
  scheduler picks it, one statement at a time, and a blocked statement (\<open>wg.Wait()\<close>,
  \<open><-done\<close>) does nothing until it is enabled.  Calls of \<open>log.Printf\<close> are left out.
\<close>

type_synonym int64 = "64 word"

datatype side = Client | Target

datatype direction = ClientToTarget | TargetToClient

text \<open>The goroutine running \<open>handleConnection\<close> and the goroutines it starts.\<close>

datatype thread = Handler | Upstream | Downstream

datatype counter = ActiveConns | TotalConns | TotalBytes

record counters =
  activeConns :: int64
  totalConns :: int64
  totalBytes :: int64

fun atomic_add :: "counter \<Rightarrow> int64 \<Rightarrow> counters \<Rightarrow> counters" where
  "atomic_add ActiveConns v cs = cs\<lparr>activeConns := activeConns cs + v\<rparr>"
| "atomic_add TotalConns v cs = cs\<lparr>totalConns := totalConns cs + v\<rparr>"
| "atomic_add TotalBytes v cs = cs\<lparr>totalBytes := totalBytes cs + v\<rparr>"

text \<open>
  Statements.  \<open>copyBuffer(dst, src)\<close> blocks for the life of its direction, so it is
  two steps: the call (\<open>CopyBegin\<close>) and the return (\<open>CopyEnd\<close>); \<open>Assign\<close> is the
  assignment of the returned count to \<open>bytesIn\<close> or \<open>bytesOut\<close>.  \<open>AddBytes\<close> is
  \<open>atomic.AddInt64(&totalBytes, bytesIn + bytesOut)\<close>.
\<close>

datatype instr =
    AddInt64 counter int64
  | AddBytes
  | DialTimeout
  | SetNoDelay side
  | SetKeepAlive side
  | SetKeepAlivePeriod side
  | WgAdd int
  | Spawn thread "instr list"
  | WgDone
  | WgWait
  | MakeChan
  | CloseChan
  | RecvChan
  | CopyBegin direction
  | CopyEnd direction
  | Assign direction
  | CloseWrite side
  | Close side

text \<open>What a statement did, one event per executed statement.\<close>

datatype event =
    Added counter int64
  | Dialed bool
  | NoDelaySet side
  | KeepAliveSet side
  | KeepAlivePeriodSet side
  | WgAdded
  | Spawned thread
  | Signalled
  | Waited
  | ChanMade
  | CopyStarted direction
  | CopyReturned direction int64
  | Assigned direction int64
  | HalfClosed side
  | Closed side

text \<open>
  One accepted connection: what the environment decides (whether the dial succeeds, the
  byte count each \<open>copyBuffer\<close> returns), the code and program counter of each thread,
  the WaitGroup counter, whether the channel \<open>done\<close> is closed, the value each
  \<open>copyBuffer\<close> returned, the variables \<open>bytesIn\<close> and \<open>bytesOut\<close>, and the events so
  far, each with the thread that executed the statement.
\<close>

record conn =
  dial_ok :: bool
  returns :: "direction \<Rightarrow> int64"
  code :: "thread \<Rightarrow> instr list"
  pc :: "thread \<Rightarrow> nat"
  wg :: int
  done_closed :: bool
  copied :: "direction \<Rightarrow> int64"
  bytesIn :: int64
  bytesOut :: int64
  trace :: "(thread \<times> event) list"

text \<open>
  The effect of one statement on the connection, with its event; \<open>None\<close> when the
  statement blocks.
\<close>

fun exec :: "instr \<Rightarrow> conn \<Rightarrow> (conn \<times> event) option" where
  "exec (AddInt64 ctr v) c = Some (c, Added ctr v)"
| "exec AddBytes c = Some (c, Added TotalBytes (bytesIn c + bytesOut c))"
| "exec DialTimeout c = Some (c, Dialed (dial_ok c))"
| "exec (SetNoDelay s) c = Some (c, NoDelaySet s)"
| "exec (SetKeepAlive s) c = Some (c, KeepAliveSet s)"
| "exec (SetKeepAlivePeriod s) c = Some (c, KeepAlivePeriodSet s)"
| "exec (WgAdd k) c = Some (c\<lparr>wg := wg c + k\<rparr>, WgAdded)"
| "exec (Spawn th body) c =
     Some (c\<lparr>code := (code c)(th := body), pc := (pc c)(th := 0)\<rparr>, Spawned th)"
| "exec WgDone c = Some (c\<lparr>wg := wg c - 1\<rparr>, Signalled)"
| "exec WgWait c = (if wg c = 0 then Some (c, Waited) else None)"
| "exec MakeChan c = Some (c\<lparr>done_closed := False\<rparr>, ChanMade)"
| "exec CloseChan c = Some (c\<lparr>done_closed := True\<rparr>, Signalled)"
| "exec RecvChan c = (if done_closed c then Some (c, Waited) else None)"
| "exec (CopyBegin d) c = Some (c, CopyStarted d)"
| "exec (CopyEnd d) c = Some (c\<lparr>copied := (copied c)(d := returns c d)\<rparr>, CopyReturned d (returns c d))"
| "exec (Assign ClientToTarget) c =
     Some (c\<lparr>bytesIn := copied c ClientToTarget\<rparr>,
           Assigned ClientToTarget (copied c ClientToTarget))"
| "exec (Assign TargetToClient) c =
     Some (c\<lparr>bytesOut := copied c TargetToClient\<rparr>,
           Assigned TargetToClient (copied c TargetToClient))"
| "exec (CloseWrite s) c = Some (c, HalfClosed s)"
| "exec (Close s) c = Some (c, Closed s)"

definition thread_step :: "thread \<Rightarrow> conn \<Rightarrow> (conn \<times> event) option" where
  "thread_step th c =
     (if pc c th < length (code c th)
      then (case exec (code c th ! pc c th) c of
              None \<Rightarrow> None
            | Some (c', e) \<Rightarrow>
                Some (c'\<lparr>pc := (pc c')(th := Suc (pc c th)), trace := trace c' @ [(th, e)]\<rparr>, e))
      else None)"

definition conn_step :: "thread \<Rightarrow> conn \<Rightarrow> conn" where
  "conn_step th c = (case thread_step th c of None \<Rightarrow> c | Some (c', e) \<Rightarrow> c')"

definition run_conn :: "thread list \<Rightarrow> conn \<Rightarrow> conn" where
  "run_conn sched c = fold conn_step sched c"

text \<open>\<open>handleConnection\<close> has returned.\<close>

definition finished :: "conn \<Rightarrow> bool" where
  "finished c = (pc c Handler = length (code c Handler))"

subsection \<open>The two programs\<close>

text \<open>
  The path \<open>handleConnection\<close> takes is fixed by the outcome of the dial, so the code
  of the handler is given for each outcome.  The deferred decrement of \<open>activeConns\<close>
  runs on return, at the end of either path.
\<close>

text \<open>\<open>src/k8s-proxy/main.go\<close>.\<close>

definition upstream_k8s :: "instr list" where
  "upstream_k8s =
     [CopyBegin ClientToTarget, CopyEnd ClientToTarget, Assign ClientToTarget,
      CloseWrite Target, WgDone]"

definition downstream_k8s :: "instr list" where
  "downstream_k8s =
     [CopyBegin TargetToClient, CopyEnd TargetToClient, Assign TargetToClient,
      CloseWrite Client, WgDone]"

definition handleConnection_k8s :: "bool \<Rightarrow> instr list" where
  "handleConnection_k8s ok =
     [AddInt64 TotalConns 1, AddInt64 ActiveConns 1, DialTimeout]
     @ (if ok
        then [WgAdd 2, Spawn Upstream upstream_k8s, Spawn Downstream downstream_k8s, WgWait,
              Close Client, Close Target, AddBytes]
        else [Close Client])
     @ [AddInt64 ActiveConns (- 1)]"

text \<open>
  \<open>src/unnamed/part_004\<close>.  The type tests \<open>clientConn.(*net.TCPConn)\<close> succeed: the
  listener and the dial are both \<open>tcp\<close>.
\<close>

definition upstream_chan :: "instr list" where
  "upstream_chan =
     [CopyBegin ClientToTarget, CopyEnd ClientToTarget, Assign ClientToTarget,
      CloseWrite Target, CloseChan]"

definition handleConnection_chan :: "bool \<Rightarrow> instr list" where
  "handleConnection_chan ok =
     [AddInt64 TotalConns 1, AddInt64 ActiveConns 1, DialTimeout]
     @ (if ok
        then [SetNoDelay Client, SetKeepAlive Client, SetKeepAlivePeriod Client,
              SetNoDelay Target, SetKeepAlive Target, SetKeepAlivePeriod Target,
              MakeChan, Spawn Upstream upstream_chan,
              CopyBegin TargetToClient, CopyEnd TargetToClient, Assign TargetToClient,
              CloseWrite Client, RecvChan,
              Close Client, Close Target, AddBytes]
        else [Close Client])
     @ [AddInt64 ActiveConns (- 1)]"

text \<open>A freshly accepted connection, about to run the given handler code.\<close>

definition accept :: "(bool \<Rightarrow> instr list) \<Rightarrow> bool \<Rightarrow> int64 \<Rightarrow> int64 \<Rightarrow> conn" where
  "accept handler ok n_in n_out =
     \<lparr> dial_ok = ok,
       returns = (\<lambda>d. case d of ClientToTarget \<Rightarrow> n_in | TargetToClient \<Rightarrow> n_out),
       code = (\<lambda>th. case th of Handler \<Rightarrow> handler ok | _ \<Rightarrow> []),
       pc = (\<lambda>_. 0), wg = 0, done_closed = False, copied = (\<lambda>_. 0),
       bytesIn = 0, bytesOut = 0, trace = [] \<rparr>"

subsection \<open>The proxy: shared counters and many connections\<close>

fun apply_event :: "event \<Rightarrow> counters \<Rightarrow> counters" where
  "apply_event (Added ctr v) cs = atomic_add ctr v cs"
| "apply_event _ cs = cs"

record proxy =
  stats :: counters
  conns :: "conn list"

definition proxy_step :: "nat \<times> thread \<Rightarrow> proxy \<Rightarrow> proxy" where
  "proxy_step it p =
     (if fst it < length (conns p)
      then (case thread_step (snd it) (conns p ! fst it) of
              None \<Rightarrow> p
            | Some (c', e) \<Rightarrow>
                \<lparr> stats = apply_event e (stats p), conns = (conns p)[fst it := c'] \<rparr>)
      else p)"

definition run_proxy :: "(nat \<times> thread) list \<Rightarrow> proxy \<Rightarrow> proxy" where
  "run_proxy sched p = fold proxy_step sched p"

text \<open>
  \<open>before a b tr\<close>: reading the trace from the start, \<open>a\<close> is met before \<open>b\<close> is,
  or \<open>b\<close> is never met.
\<close>

fun before :: "'a \<Rightarrow> 'a \<Rightarrow> 'a list \<Rightarrow> bool" where
  "before a b [] = True"
| "before a b (x # xs) = (if x = a then True else if x = b then False else before a b xs)"

text \<open>The events of one thread, in order.\<close>

definition events_of :: "thread \<Rightarrow> (thread \<times> event) list \<Rightarrow> event list" where
  "events_of th tr = map snd (filter (\<lambda>x. fst x = th) tr)"

text \<open>The amounts the events of a trace add to one counter, in order, and their sum.\<close>

fun adds :: "counter \<Rightarrow> (thread \<times> event) list \<Rightarrow> int64 list" where
  "adds ctr [] = []"
| "adds ctr ((th, Added ctr' v) # tr) = (if ctr' = ctr then [v] else []) @ adds ctr tr"
| "adds ctr (_ # tr) = adds ctr tr"

definition added :: "counter \<Rightarrow> (thread \<times> event) list \<Rightarrow> int64" where
  "added ctr tr = sum_list (adds ctr tr)"

definition read_counter :: "counter \<Rightarrow> counters \<Rightarrow> int64" where
  "read_counter ctr cs =
     (case ctr of ActiveConns \<Rightarrow> activeConns cs | TotalConns \<Rightarrow> totalConns cs
      | TotalBytes \<Rightarrow> totalBytes cs)"

subsection \<open>Invariants of one connection\<close>

text \<open>
  The events each thread produces when it runs to its end, for a connection whose dial
  succeeded; \<open>r_in\<close> and \<open>r_out\<close> are the counts the two copies return.
\<close>

definition upstream_events :: "conn \<Rightarrow> event list" where
  "upstream_events c =
     [CopyStarted ClientToTarget, CopyReturned ClientToTarget (returns c ClientToTarget),
      Assigned ClientToTarget (returns c ClientToTarget), HalfClosed Target, Signalled]"

definition downstream_events :: "conn \<Rightarrow> event list" where
  "downstream_events c =
     [CopyStarted TargetToClient, CopyReturned TargetToClient (returns c TargetToClient),
      Assigned TargetToClient (returns c TargetToClient), HalfClosed Client, Signalled]"

definition handler_events_k8s :: "conn \<Rightarrow> event list" where
  "handler_events_k8s c =
     [Added TotalConns 1, Added ActiveConns 1, Dialed True, WgAdded, Spawned Upstream,
      Spawned Downstream, Waited, Closed Client, Closed Target,
      Added TotalBytes (returns c ClientToTarget + returns c TargetToClient),
      Added ActiveConns (- 1)]"

definition handler_events_chan :: "conn \<Rightarrow> event list" where
  "handler_events_chan c =
     [Added TotalConns 1, Added ActiveConns 1, Dialed True,
      NoDelaySet Client, KeepAliveSet Client, KeepAlivePeriodSet Client,
      NoDelaySet Target, KeepAliveSet Target, KeepAlivePeriodSet Target,
      ChanMade, Spawned Upstream,
      CopyStarted TargetToClient, CopyReturned TargetToClient (returns c TargetToClient),
      Assigned TargetToClient (returns c TargetToClient), HalfClosed Client, Waited,
      Closed Client, Closed Target,
      Added TotalBytes (returns c ClientToTarget + returns c TargetToClient),
      Added ActiveConns (- 1)]"

definition handler_events_failed :: "event list" where
  "handler_events_failed =
     [Added TotalConns 1, Added ActiveConns 1, Dialed False, Closed Client,
      Added ActiveConns (- 1)]"

text \<open>
  The order in which the directions end, for a trace: each direction's copy returns
  before its half-close, the half-close comes before the direction signals, and both
  half-closes and every signal come before either connection is closed.
\<close>

definition half_close_order :: "thread \<Rightarrow> conn \<Rightarrow> bool" where
  "half_close_order down c \<longleftrightarrow>
     before (Upstream, CopyReturned ClientToTarget (returns c ClientToTarget))
            (Upstream, HalfClosed Target) (trace c)
     \<and> before (down, CopyReturned TargetToClient (returns c TargetToClient))
              (down, HalfClosed Client) (trace c)
     \<and> before (Upstream, HalfClosed Target) (Upstream, Signalled) (trace c)
     \<and> before (Upstream, Signalled) (Handler, Closed Client) (trace c)
     \<and> before (Upstream, Signalled) (Handler, Closed Target) (trace c)
     \<and> before (Upstream, HalfClosed Target) (Handler, Closed Client) (trace c)
     \<and> before (Upstream, HalfClosed Target) (Handler, Closed Target) (trace c)
     \<and> before (down, HalfClosed Client) (Handler, Closed Client) (trace c)
     \<and> before (down, HalfClosed Client) (Handler, Closed Target) (trace c)"

text \<open>The invariant of a connection of \<open>src/k8s-proxy/main.go\<close> whose dial succeeded.\<close>

definition inv_k8s :: "conn \<Rightarrow> bool" where
  "inv_k8s c \<longleftrightarrow>
     dial_ok c
     \<and> code c Handler = handleConnection_k8s True \<and> pc c Handler \<le> 11
     \<and> code c Upstream = (if 5 \<le> pc c Handler then upstream_k8s else [])
     \<and> pc c Upstream \<le> 5 \<and> (pc c Handler < 5 \<longrightarrow> pc c Upstream = 0)
     \<and> code c Downstream = (if 6 \<le> pc c Handler then downstream_k8s else [])
     \<and> pc c Downstream \<le> 5 \<and> (pc c Handler < 6 \<longrightarrow> pc c Downstream = 0)
     \<and> wg c = (if 4 \<le> pc c Handler then 2 else 0)
               - (if pc c Upstream = 5 then 1 else 0) - (if pc c Downstream = 5 then 1 else 0)
     \<and> (7 \<le> pc c Handler \<longrightarrow> pc c Upstream = 5 \<and> pc c Downstream = 5)
     \<and> (2 \<le> pc c Upstream \<longrightarrow> copied c ClientToTarget = returns c ClientToTarget)
     \<and> (2 \<le> pc c Downstream \<longrightarrow> copied c TargetToClient = returns c TargetToClient)
     \<and> bytesIn c = (if 3 \<le> pc c Upstream then returns c ClientToTarget else 0)
     \<and> bytesOut c = (if 3 \<le> pc c Downstream then returns c TargetToClient else 0)
     \<and> events_of Handler (trace c) = take (pc c Handler) (handler_events_k8s c)
     \<and> events_of Upstream (trace c) = take (pc c Upstream) (upstream_events c)
     \<and> events_of Downstream (trace c) = take (pc c Downstream) (downstream_events c)
     \<and> adds TotalConns (trace c) = (if 1 \<le> pc c Handler then [1] else [])
     \<and> adds ActiveConns (trace c)
         = (if 2 \<le> pc c Handler then [1] else []) @ (if 11 \<le> pc c Handler then [- 1] else [])
     \<and> adds TotalBytes (trace c)
         = (if 10 \<le> pc c Handler then [returns c ClientToTarget + returns c TargetToClient]
            else [])
     \<and> half_close_order Downstream c
     \<and> before (Downstream, HalfClosed Client) (Downstream, Signalled) (trace c)
     \<and> before (Downstream, Signalled) (Handler, Closed Client) (trace c)
     \<and> before (Downstream, Signalled) (Handler, Closed Target) (trace c)"

text \<open>
  Every socket option is set before any copy is started (second \<open>main.go\<close>).
\<close>

definition options_before_copy :: "conn \<Rightarrow> bool" where
  "options_before_copy c \<longleftrightarrow>
     list_all (\<lambda>opt. before (Handler, opt) (Upstream, CopyStarted ClientToTarget) (trace c)
                    \<and> before (Handler, opt) (Handler, CopyStarted TargetToClient) (trace c))
       [NoDelaySet Client, KeepAliveSet Client, KeepAlivePeriodSet Client,
        NoDelaySet Target, KeepAliveSet Target, KeepAlivePeriodSet Target]"

text \<open>The invariant of a connection of the second \<open>main.go\<close> whose dial succeeded.\<close>

definition inv_chan :: "conn \<Rightarrow> bool" where
  "inv_chan c \<longleftrightarrow>
     dial_ok c
     \<and> code c Handler = handleConnection_chan True \<and> pc c Handler \<le> 20
     \<and> code c Upstream = (if 11 \<le> pc c Handler then upstream_chan else [])
     \<and> pc c Upstream \<le> 5 \<and> (pc c Handler < 11 \<longrightarrow> pc c Upstream = 0)
     \<and> code c Downstream = [] \<and> pc c Downstream = 0
     \<and> done_closed c = (pc c Upstream = 5)
     \<and> (16 \<le> pc c Handler \<longrightarrow> pc c Upstream = 5)
     \<and> (2 \<le> pc c Upstream \<longrightarrow> copied c ClientToTarget = returns c ClientToTarget)
     \<and> (13 \<le> pc c Handler \<longrightarrow> copied c TargetToClient = returns c TargetToClient)
     \<and> bytesIn c = (if 3 \<le> pc c Upstream then returns c ClientToTarget else 0)
     \<and> bytesOut c = (if 14 \<le> pc c Handler then returns c TargetToClient else 0)
     \<and> events_of Handler (trace c) = take (pc c Handler) (handler_events_chan c)
     \<and> events_of Upstream (trace c) = take (pc c Upstream) (upstream_events c)
     \<and> events_of Downstream (trace c) = []
     \<and> adds TotalConns (trace c) = (if 1 \<le> pc c Handler then [1] else [])
     \<and> adds ActiveConns (trace c)
         = (if 2 \<le> pc c Handler then [1] else []) @ (if 20 \<le> pc c Handler then [- 1] else [])
     \<and> adds TotalBytes (trace c)
         = (if 19 \<le> pc c Handler then [returns c ClientToTarget + returns c TargetToClient]
            else [])
     \<and> half_close_order Handler c
     \<and> options_before_copy c"

text \<open>The invariant of a connection whose dial failed; the two programs agree on it.\<close>

definition inv_failed :: "conn \<Rightarrow> bool" where
  "inv_failed c \<longleftrightarrow>
     \<not> dial_ok c
     \<and> code c Handler = handleConnection_k8s False \<and> pc c Handler \<le> 5
     \<and> code c Upstream = [] \<and> code c Downstream = []
     \<and> bytesIn c = 0 \<and> bytesOut c = 0
     \<and> trace c = map (Pair Handler) (take (pc c Handler) handler_events_failed)"

subsection \<open>Notions used in the statements about the proxy\<close>


text \<open>
  A proxy that has accepted one connection per entry of \<open>envs\<close>; an entry says whether
  the dial will succeed and what the two copies will return.
\<close>

definition serve :: "(bool \<Rightarrow> instr list) \<Rightarrow> (bool \<times> int64 \<times> int64) list \<Rightarrow> counters \<Rightarrow> proxy" where
  "serve handler envs cs =
     \<lparr> stats = cs, conns = map (\<lambda>(ok, r_in, r_out). accept handler ok r_in r_out) envs \<rparr>"

text \<open>The connection has added its byte count to \<open>totalBytes\<close>.\<close>

definition accounted :: "conn \<Rightarrow> bool" where
  "accounted c = (adds TotalBytes (trace c) \<noteq> [])"

text \<open>How often the scheduler picks a thread of a connection.\<close>

definition picks :: "nat \<times> thread \<Rightarrow> (nat \<times> thread) list \<Rightarrow> nat" where
  "picks it sched = length (filter (\<lambda>x. x = it) sched)"

text \<open>What the connections of a proxy have added to a counter, all together.\<close>

definition total_added :: "counter \<Rightarrow> conn list \<Rightarrow> int64" where
  "total_added ctr cs = sum_list (map (\<lambda>c. added ctr (trace c)) cs)"


subsection \<open>Sample runs\<close>


text \<open>
  A proxy that has served 7 connections, 3 of them still active, and 100 bytes; two more
  connections arrive, the first is paired and copies 10 and 20 bytes, the dial of the
  second fails; the scheduler interleaves them until both handlers have returned.
\<close>

definition busy_counters :: counters where
  "busy_counters = \<lparr> activeConns = 3, totalConns = 7, totalBytes = 100 \<rparr>"

definition two_connections :: "(nat \<times> thread) list" where
  "two_connections =
     [(0, Handler), (1, Handler), (0, Handler), (1, Handler), (0, Handler), (1, Handler),
      (0, Handler), (0, Handler), (0, Handler), (1, Handler), (0, Upstream), (0, Downstream),
      (0, Upstream), (0, Downstream), (1, Handler), (0, Upstream), (0, Downstream),
      (0, Upstream), (0, Downstream), (0, Upstream), (0, Downstream), (0, Handler),
      (0, Handler), (0, Handler), (0, Handler), (0, Handler)]"

definition two_served :: proxy where
  "two_served =
     run_proxy two_connections
       (serve handleConnection_k8s [(True, 10, 20), (False, 0, 0)] busy_counters)"

text \<open>The handler of a connection whose dial fails, scheduled five times.\<close>

definition five_steps :: "(nat \<times> thread) list" where
  "five_steps = [(0, Handler), (0, Handler), (0, Handler), (0, Handler), (0, Handler)]"

section \<open>Properties of the client\<close>

lemma effects_do_effect [simp]: "effects (do_effect e s) = effects s @ [e]"
  by (simp add: do_effect_def)

text \<open>
  C8: whatever happened before, the handler of a successful open leaves
  \<open>connectionAttempts\<close> at 0 and \<open>reconnectDelay\<close> at the base value of 1000 ms; so
  does the open event of any connecting socket, after any execution.
\<close>

theorem onopen_resets_backoff:
  "connectionAttempts (onopen (run ins s)) = 0 \<and> reconnectDelay (onopen (run ins s)) = 1000"
  by (simp add: onopen_def send_def do_effect_def Let_def split: option.split)

lemmas client_defs =
  connect_def disconnect_def ws_close_def sendText_def sendAudio_def requestHistory_def
  send_def onopen_def onmessage_def handle_message_def parse_failure_def onerror_def
  onclose_def scheduleReconnect_def timer_callback_def do_effect_def

lemma delays_append: "delays (xs @ ys) = delays xs @ delays ys"
  by (induction xs rule: delays.induct) auto

lemma configured_step: "configured s \<Longrightarrow> configured (step x s)"
  by (cases x)
     (auto simp: configured_def client_defs Let_def split: option.splits payload.splits jsv.splits)

lemma configured_run: "configured s \<Longrightarrow> configured (run ins s)"
  unfolding run_def by (induction ins arbitrary: s) (auto simp: configured_step)

lemma configured_constructor: "configured (constructor u rejected raises)"
  by (simp add: configured_def constructor_def)

text \<open>
  One input that is not an open event appends effects; it schedules at most one timer,
  and exactly when it counts one more attempt, with the prescribed delay.
\<close>

lemma step_delays:
  assumes "configured s" and "\<forall>i. x \<noteq> OnOpen i"
  shows "\<exists>new. effects (step x s) = effects s @ new
           \<and> delays new = map backoff [Suc (connectionAttempts s) ..< Suc (connectionAttempts (step x s))]
           \<and> connectionAttempts s \<le> connectionAttempts (step x s)"
  using assms
  by (cases x)
     (auto simp: configured_def client_defs Let_def backoff_def
           split: option.splits payload.splits jsv.splits if_splits)

lemma run_delays:
  assumes "configured s" and "\<forall>x\<in>set ins. \<forall>i. x \<noteq> OnOpen i"
  shows "\<exists>new. effects (run ins s) = effects s @ new
           \<and> delays new = map backoff [Suc (connectionAttempts s) ..< Suc (connectionAttempts (run ins s))]
           \<and> connectionAttempts s \<le> connectionAttempts (run ins s)"
  using assms
proof (induction ins arbitrary: s)
  case Nil
  then show ?case by (simp add: run_def)
next
  case (Cons x xs)
  let ?t = "step x s"
  from Cons.prems obtain n1 where n1: "effects ?t = effects s @ n1"
      "delays n1 = map backoff [Suc (connectionAttempts s) ..< Suc (connectionAttempts ?t)]"
      "connectionAttempts s \<le> connectionAttempts ?t"
    using step_delays [of s x] by auto
  have "configured ?t" using Cons.prems by (simp add: configured_step)
  with Cons.IH [of ?t] Cons.prems obtain n2 where n2: "effects (run xs ?t) = effects ?t @ n2"
      "delays n2 = map backoff [Suc (connectionAttempts ?t) ..< Suc (connectionAttempts (run xs ?t))]"
      "connectionAttempts ?t \<le> connectionAttempts (run xs ?t)"
    by auto
  have r: "run (x # xs) s = run xs ?t" by (simp add: run_def)
  have "[Suc (connectionAttempts s) ..< Suc (connectionAttempts (run xs ?t))]
          = [Suc (connectionAttempts s) ..< Suc (connectionAttempts ?t)]
            @ [Suc (connectionAttempts ?t) ..< Suc (connectionAttempts (run xs ?t))]"
    using n1(3) n2(3) by (metis Suc_le_mono le_Suc_ex upt_add_eq_append)
  then have "delays (n1 @ n2)
          = map backoff [Suc (connectionAttempts s) ..< Suc (connectionAttempts (run xs ?t))]"
    using n1(2) n2(2) by (simp add: delays_append)
  then show ?case
    using n1 n2 r by (intro exI [of _ "n1 @ n2"]) simp
qed

lemma backoff_capped:
  assumes "10 \<le> n"
  shows "backoff n = 30000"
proof -
  have "(3 / 2 :: rat) ^ 9 \<le> (3 / 2) ^ (n - 1)"
    using assms by (intro power_increasing) auto
  moreover have "(30 :: rat) \<le> (3 / 2) ^ 9" by (simp add: power_divide)
  ultimately have "(30000 :: rat) \<le> 1000 * (3 / 2) ^ (n - 1)" by linarith
  then show ?thesis by (simp add: backoff_def)
qed

lemma backoff_below_cap:
  assumes "1 \<le> n" and "n < 10"
  shows "backoff n < 30000"
proof -
  have "(3 / 2 :: rat) ^ (n - 1) \<le> (3 / 2) ^ 8"
    using assms by (intro power_increasing) auto
  moreover have "(3 / 2 :: rat) ^ 8 < 30" by (simp add: power_divide)
  ultimately have "1000 * (3 / 2 :: rat) ^ (n - 1) < 30000" by linarith
  then show ?thesis by (simp add: backoff_def)
qed

text \<open>Ten failed connections in a row, evaluated once.\<close>

lemma ten_failures:
  "delays (effects (run (failing_connections 10) (constructor ''ws://bridge'' False False)))
     = [1000, 1500, 2250, 3375, 10125 / 2, 30375 / 4, 91125 / 8, 273375 / 16, 820125 / 32, 30000]
   \<and> connectionAttempts (run (failing_connections 10) (constructor ''ws://bridge'' False False)) = 10"
  by (simp add: failing_connections_def run_def client_defs constructor_def Let_def
                upt_conv_Cons power_divide)

text \<open>
  C1, as amended: after a successful open or the construction (\<open>connectionAttempts\<close> is 0),
  in every execution without a further open event the delays handed to \<open>setTimeout\<close>
  are \<open>min (1000 * 1.5 ^ (n - 1)) 30000\<close> for \<open>n = 1, 2, ...\<close>, one per counted attempt;
  this delay is below 30000 for the attempts 1 to 9 and is 30000 from attempt 10 onward.
\<close>

theorem reconnect_delay_sequence:
  assumes "connectionAttempts (run pre (constructor u rejected raises)) = 0"
    and "\<forall>x\<in>set ins. \<forall>i. x \<noteq> OnOpen i"
  shows "delays (new_effects (run pre (constructor u rejected raises))
                   (run ins (run pre (constructor u rejected raises))))
           = map backoff [1 ..< Suc (connectionAttempts (run ins (run pre (constructor u rejected raises))))]
         \<and> (\<forall>n. 1 \<le> n \<and> n < 10 \<longrightarrow> backoff n < 30000)
         \<and> (\<forall>n. 10 \<le> n \<longrightarrow> backoff n = 30000)"
proof -
  let ?s = "run pre (constructor u rejected raises)"
  have "configured ?s" by (simp add: configured_run configured_constructor)
  then obtain new where "effects (run ins ?s) = effects ?s @ new"
      "delays new = map backoff [Suc (connectionAttempts ?s) ..< Suc (connectionAttempts (run ins ?s))]"
    using run_delays [of ?s ins] assms(2) by auto
  then have "delays (new_effects ?s (run ins ?s))
          = map backoff [1 ..< Suc (connectionAttempts (run ins ?s))]"
    using assms(1) by (simp add: new_effects_def)
  then show ?thesis
    using backoff_capped backoff_below_cap by blast
qed

theorem reconnect_delay_sequence_witness:
  "delays (new_effects (run [] (constructor ''ws://bridge'' False False))
             (run (failing_connections 10) (run [] (constructor ''ws://bridge'' False False))))
     = map backoff [1 ..< 11]
   \<and> backoff 9 < 30000 \<and> backoff 10 = 30000"
proof -
  have a: "connectionAttempts (run [] (constructor ''ws://bridge'' False False)) = 0"
    by (simp add: run_def constructor_def)
  have b: "\<forall>x\<in>set (failing_connections 10). \<forall>i. x \<noteq> OnOpen i"
    by (auto simp: failing_connections_def)
  have c: "run [] (constructor ''ws://bridge'' False False) = constructor ''ws://bridge'' False False"
    by (simp add: run_def)
  show ?thesis
    using reconnect_delay_sequence [OF a b] ten_failures by (simp add: c)
qed

text \<open>
  The claim as stated fails at attempt 9: in a run of ten consecutive failures the ninth
  delay is \<open>1000 * 1.5 ^ 8 = 25628.90625\<close>, not 30000.
\<close>

theorem ninth_delay_counterexample:
  "delays (effects (run (failing_connections 10) (constructor ''ws://bridge'' False False))) ! 8
     \<noteq> 30000"
  using ten_failures by simp










text \<open>
  C3, as amended: in every state without an open transport (\<open>this.ws\<close> is null or its
  socket is not \<open>OPEN\<close>), each of \<open>sendText\<close>, \<open>sendAudio\<close> and
  \<open>requestHistory\<close> returns false and leaves the whole state as it is: nothing is
  sent, nothing is emitted, nothing is kept for later.
\<close>

theorem helpers_fail_without_open_transport:
  assumes "\<not> ws_open s"
  shows "sendText text s = (False, s)
         \<and> sendAudio audioData format sampleRate s = (False, s)
         \<and> requestHistory offset limit s = (False, s)"
  using assms
  by (auto simp: sendText_def sendAudio_def requestHistory_def send_def ws_open_def
           split: option.splits)

theorem helpers_fail_without_open_transport_witness:
  "\<not> ws_open pending_retry_session_closed
   \<and> sendText (Str ''hi'') pending_retry_session_closed = (False, pending_retry_session_closed)
   \<and> sendAudio (Str ''AAAA'') Undefined Undefined pending_retry_session_closed
       = (False, pending_retry_session_closed)
   \<and> requestHistory Undefined Undefined pending_retry_session_closed
       = (False, pending_retry_session_closed)"
proof -
  have a: "\<not> ws_open pending_retry_session_closed"
    by (simp add: pending_retry_session_closed_def pending_retry_session_def
                  auth_rejection_def ws_open_def run_def client_defs constructor_def Let_def
                  emit_raises_def object_prototype_keys_def)
  show ?thesis
    using a helpers_fail_without_open_transport [OF a] by blast
qed

text \<open>
  The claim as stated takes \<open>isReady()\<close> being false as the condition.  Between the
  open event and the answer to the \<open>auth\<close> envelope the transport is open and
  \<open>authenticated\<close> is false: \<open>isReady()\<close> is false, and \<open>sendText\<close> sends the
  envelope and returns true.
\<close>

theorem send_before_auth_counterexample:
  "\<not> isReady pending_retry_session
   \<and> fst (sendText (Str ''hi'') pending_retry_session) = True
   \<and> new_effects pending_retry_session (snd (sendText (Str ''hi'') pending_retry_session))
       = [WsSend 1 (Obj [(''type'', Str ''text''), (''message'', Str ''hi'')])]"
  by (simp add: pending_retry_session_def isReady_def ws_open_def sendText_def new_effects_def
                run_def client_defs constructor_def Let_def)



section \<open>Properties of the event emitter\<close>





text \<open>The three callbacks do run, the throwing one included: each leaves its mark.\<close>

lemma three_listeners_run:
  "emit [''text'' \<mapsto> three_listeners] ''text'' (Str ''hi'') [] = Inr ([1, 2, 3], [1, 2, 3])"
  by (simp add: emit_def lookup_def three_listeners_def logging_def throwing_def)

section \<open>Properties of the proxy\<close>

lemma before_snoc:
  "a \<noteq> b \<Longrightarrow> before a b (tr @ [e]) = (before a b tr \<and> (e = b \<longrightarrow> a \<in> set tr))"
  by (induction tr) auto

lemma events_of_snoc [simp]:
  "events_of th (tr @ [(th', e)]) = (if th' = th then events_of th tr @ [e] else events_of th tr)"
  by (simp add: events_of_def)

lemma adds_snoc [simp]:
  "adds ctr (tr @ [(th, e)])
     = adds ctr tr @ (case e of Added ctr' v \<Rightarrow> if ctr' = ctr then [v] else [] | _ \<Rightarrow> [])"
  by (induction ctr tr rule: adds.induct) (auto split: event.splits)

lemma mem_events_of: "(th, e) \<in> set tr \<longleftrightarrow> e \<in> set (events_of th tr)"
  by (force simp: events_of_def)

lemma below_11:
  "k < 11 \<Longrightarrow> k = 0 \<or> k = 1 \<or> k = 2 \<or> k = 3 \<or> k = 4 \<or> k = 5 \<or> k = 6 \<or> k = 7 \<or> k = 8 \<or> k = 9 \<or> k = (10::nat)"
  by arith

lemma below_5: "k < 5 \<Longrightarrow> k = 0 \<or> k = 1 \<or> k = 2 \<or> k = 3 \<or> k = (4::nat)"
  by arith

lemmas k8s_defs = handleConnection_k8s_def handler_events_k8s_def upstream_events_def
  downstream_events_def upstream_k8s_def downstream_k8s_def half_close_order_def

lemma inv_k8s_accept: "inv_k8s (accept handleConnection_k8s True a b)"
  by (simp add: inv_k8s_def accept_def events_of_def half_close_order_def)

lemma inv_k8s_handler:
  assumes "inv_k8s c"
  shows "inv_k8s (conn_step Handler c)"
proof (cases "pc c Handler < 11")
  case False
  then show ?thesis
    using assms by (simp add: conn_step_def thread_step_def inv_k8s_def k8s_defs)
next
  case True
  from below_11 [OF True] show ?thesis
    using assms
    by (elim disjE)
       (simp_all add: conn_step_def thread_step_def inv_k8s_def k8s_defs before_snoc
                      mem_events_of split: if_splits)
qed

lemma inv_k8s_upstream:
  assumes "inv_k8s c"
  shows "inv_k8s (conn_step Upstream c)"
proof (cases "pc c Upstream < length (code c Upstream)")
  case False
  then show ?thesis
    by (simp add: conn_step_def thread_step_def assms)
next
  case True
  then have "5 \<le> pc c Handler" "pc c Upstream < 5" "pc c Handler < 7"
    using assms by (auto simp: inv_k8s_def k8s_defs split: if_splits)
  from below_5 [OF this(2)] this(1,3) show ?thesis
    using assms
    by (elim disjE)
       (simp_all add: conn_step_def thread_step_def inv_k8s_def k8s_defs before_snoc
                      mem_events_of split: if_splits)
qed

lemma inv_k8s_downstream:
  assumes "inv_k8s c"
  shows "inv_k8s (conn_step Downstream c)"
proof (cases "pc c Downstream < length (code c Downstream)")
  case False
  then show ?thesis
    by (simp add: conn_step_def thread_step_def assms)
next
  case True
  then have "6 \<le> pc c Handler" "pc c Downstream < 5" "pc c Handler < 7"
    using assms by (auto simp: inv_k8s_def k8s_defs split: if_splits)
  from below_5 [OF this(2)] this(1,3) show ?thesis
    using assms
    by (elim disjE)
       (simp_all add: conn_step_def thread_step_def inv_k8s_def k8s_defs before_snoc
                      mem_events_of split: if_splits)
qed


lemma below_20:
  "k < 20 \<Longrightarrow> k = 0 \<or> k = 1 \<or> k = 2 \<or> k = 3 \<or> k = 4 \<or> k = 5 \<or> k = 6 \<or> k = 7 \<or> k = 8 \<or> k = 9
     \<or> k = 10 \<or> k = 11 \<or> k = 12 \<or> k = 13 \<or> k = 14 \<or> k = 15 \<or> k = 16 \<or> k = 17 \<or> k = 18
     \<or> k = (19::nat)"
  by arith

lemmas chan_defs = handleConnection_chan_def handler_events_chan_def upstream_events_def
  upstream_chan_def half_close_order_def options_before_copy_def

lemma inv_chan_accept: "inv_chan (accept handleConnection_chan True a b)"
  by (simp add: inv_chan_def accept_def events_of_def half_close_order_def
                options_before_copy_def)

lemma inv_chan_handler:
  assumes "inv_chan c"
  shows "inv_chan (conn_step Handler c)"
proof (cases "pc c Handler < 20")
  case False
  then show ?thesis
    using assms by (simp add: conn_step_def thread_step_def inv_chan_def chan_defs)
next
  case True
  from below_20 [OF True] show ?thesis
    using assms
    by (elim disjE)
       (simp_all add: conn_step_def thread_step_def inv_chan_def chan_defs before_snoc
                      mem_events_of split: if_splits)
qed

lemma inv_chan_upstream:
  assumes "inv_chan c"
  shows "inv_chan (conn_step Upstream c)"
proof (cases "pc c Upstream < length (code c Upstream)")
  case False
  then show ?thesis
    by (simp add: conn_step_def thread_step_def assms)
next
  case True
  then have "11 \<le> pc c Handler" "pc c Upstream < 5" "pc c Handler < 16"
    using assms by (auto simp: inv_chan_def chan_defs split: if_splits)
  then have "pc c Upstream = 0 \<or> pc c Upstream = 1 \<or> pc c Upstream = 2 \<or> pc c Upstream = 3
             \<or> pc c Upstream = 4"
    and "pc c Handler = 11 \<or> pc c Handler = 12 \<or> pc c Handler = 13 \<or> pc c Handler = 14
         \<or> pc c Handler = 15"
    by arith+
  then show ?thesis
    using assms
    by (elim disjE)
       (simp_all add: conn_step_def thread_step_def inv_chan_def chan_defs before_snoc
                      mem_events_of)
qed

lemma inv_chan_downstream:
  assumes "inv_chan c"
  shows "inv_chan (conn_step Downstream c)"
  using assms by (simp add: conn_step_def thread_step_def inv_chan_def)

lemma failed_code_agrees: "handleConnection_chan False = handleConnection_k8s False"
  by (simp add: handleConnection_chan_def handleConnection_k8s_def)

lemma inv_failed_accept: "inv_failed (accept handleConnection_k8s False a b)"
  "inv_failed (accept handleConnection_chan False a b)"
  by (simp_all add: inv_failed_def accept_def failed_code_agrees)

lemma inv_failed_step:
  assumes "inv_failed c"
  shows "inv_failed (conn_step th c)"
proof (cases th)
  case Handler
  show ?thesis
  proof (cases "pc c Handler < 5")
    case False
    then show ?thesis
      using assms Handler
      by (simp add: conn_step_def thread_step_def inv_failed_def handleConnection_k8s_def)
  next
    case True
    from below_5 [OF True] show ?thesis
      using assms Handler
      by (elim disjE)
         (simp_all add: conn_step_def thread_step_def inv_failed_def handleConnection_k8s_def
                        handler_events_failed_def)
  qed
next
  case Upstream
  then show ?thesis using assms by (simp add: conn_step_def thread_step_def inv_failed_def)
next
  case Downstream
  then show ?thesis using assms by (simp add: conn_step_def thread_step_def inv_failed_def)
qed

lemma inv_k8s_step: "inv_k8s c \<Longrightarrow> inv_k8s (conn_step th c)"
  by (cases th) (simp_all add: inv_k8s_handler inv_k8s_upstream inv_k8s_downstream)

lemma inv_chan_step: "inv_chan c \<Longrightarrow> inv_chan (conn_step th c)"
  by (cases th) (simp_all add: inv_chan_handler inv_chan_upstream inv_chan_downstream)

lemma run_conn_inv:
  assumes "\<And>th c. J c \<Longrightarrow> J (conn_step th c)" and "J c"
  shows "J (run_conn sched c)"
  using assms(2) unfolding run_conn_def
  by (induction sched arbitrary: c) (auto intro: assms(1))

lemma proxy_step_conns:
  assumes "\<And>th c. J c \<Longrightarrow> J (conn_step th c)" and "\<forall>c\<in>set (conns p). J c"
  shows "\<forall>c\<in>set (conns (proxy_step it p)). J c"
proof (cases "fst it < length (conns p)")
  case False
  then show ?thesis using assms(2) by (simp add: proxy_step_def)
next
  case True
  show ?thesis
  proof (cases "thread_step (snd it) (conns p ! fst it)")
    case None
    then show ?thesis using assms(2) True by (simp add: proxy_step_def)
  next
    case (Some r)
    obtain c' e where r: "r = (c', e)" by (cases r)
    have "c' = conn_step (snd it) (conns p ! fst it)"
      using Some r by (simp add: conn_step_def)
    then have "J c'" using assms True by (metis nth_mem)
    then show ?thesis
      using assms(2) True Some r
      by (auto simp: proxy_step_def dest!: set_update_subset_insert [THEN subsetD])
  qed
qed

lemma run_proxy_conns:
  assumes "\<And>th c. J c \<Longrightarrow> J (conn_step th c)" and "\<forall>c\<in>set (conns p). J c"
  shows "\<forall>c\<in>set (conns (run_proxy sched p)). J c"
  using assms(2) unfolding run_proxy_def
proof (induction sched arbitrary: p)
  case Nil
  then show ?case by simp
next
  case (Cons it sched)
  have "\<forall>c\<in>set (conns (proxy_step it p)). J c"
    using proxy_step_conns [of J p it] assms(1) Cons.prems by blast
  then show ?case using Cons.IH [of "proxy_step it p"] by simp
qed

lemma exec_trace:
  assumes "exec i c = Some (c', e)"
  shows "trace c' = trace c"
  using assms by (cases "(i, c)" rule: exec.cases) (auto split: if_splits)

lemma thread_step_trace:
  assumes "thread_step th c = Some (c', e)"
  shows "trace c' = trace c @ [(th, e)]"
  using assms exec_trace
  by (fastforce simp: thread_step_def split: if_splits option.splits)

lemma read_apply_event:
  "read_counter ctr (apply_event e cs)
     = read_counter ctr cs
       + sum_list (case e of Added ctr' v \<Rightarrow> if ctr' = ctr then [v] else [] | _ \<Rightarrow> [])"
proof (cases e)
  case (Added ctr' v)
  then show ?thesis by (cases ctr'; cases ctr) (simp_all add: read_counter_def)
qed simp_all

lemma sum_list_map_update:
  fixes f :: "'a \<Rightarrow> int64"
  assumes "i < length xs"
  shows "sum_list (map f (xs[i := y])) = sum_list (map f xs) - f (xs ! i) + f y"
  using assms
proof (induction xs arbitrary: i)
  case Nil
  then show ?case by simp
next
  case (Cons x xs)
  then show ?case by (cases i) (auto simp: algebra_simps)
qed

lemma proxy_step_stats:
  "read_counter ctr (stats (proxy_step it p)) - total_added ctr (conns (proxy_step it p))
     = read_counter ctr (stats p) - total_added ctr (conns p)"
proof (cases "fst it < length (conns p)")
  case False
  then show ?thesis by (simp add: proxy_step_def)
next
  case True
  show ?thesis
  proof (cases "thread_step (snd it) (conns p ! fst it)")
    case None
    then show ?thesis using True by (simp add: proxy_step_def)
  next
    case (Some r)
    obtain c' e where r: "r = (c', e)" by (cases r)
    have t: "trace c' = trace (conns p ! fst it) @ [(snd it, e)]"
      using thread_step_trace Some r by simp
    have "total_added ctr ((conns p)[fst it := c'])
            = total_added ctr (conns p) - added ctr (trace (conns p ! fst it))
              + added ctr (trace c')"
      unfolding total_added_def
      by (rule sum_list_map_update [OF True, of "\<lambda>c. added ctr (trace c)" c'])
    then show ?thesis
      using True Some r t by (simp add: proxy_step_def read_apply_event added_def)
  qed
qed

lemma run_proxy_stats:
  "read_counter ctr (stats (run_proxy sched p)) - total_added ctr (conns (run_proxy sched p))
     = read_counter ctr (stats p) - total_added ctr (conns p)"
  unfolding run_proxy_def
proof (induction sched arbitrary: p)
  case Nil
  then show ?case by simp
next
  case (Cons it sched)
  show ?case
    using Cons.IH [of "proxy_step it p"] proxy_step_stats [of ctr it p] by simp
qed

lemmas machine_defs = run_conn_def conn_step_def thread_step_def accept_def


text \<open>What the invariants say about the byte counts of a connection.\<close>

lemma k8s_bytes:
  assumes "inv_k8s c"
  shows "dial_ok c
         \<and> (finished c \<longrightarrow> accounted c)
         \<and> (accounted c \<longrightarrow>
              bytesIn c = returns c ClientToTarget \<and> bytesOut c = returns c TargetToClient
              \<and> adds TotalBytes (trace c) = [bytesIn c + bytesOut c]
              \<and> (Handler, Closed Client) \<in> set (trace c)
              \<and> (Handler, Closed Target) \<in> set (trace c))"
proof -
  have "pc c Handler < 10 \<or> pc c Handler = 10 \<or> pc c Handler = 11"
    using assms by (auto simp: inv_k8s_def)
  then show ?thesis
    using assms
    by (elim disjE)
       (simp_all add: inv_k8s_def accounted_def finished_def mem_events_of k8s_defs)
qed

lemma chan_bytes:
  assumes "inv_chan c"
  shows "dial_ok c
         \<and> (finished c \<longrightarrow> accounted c)
         \<and> (accounted c \<longrightarrow>
              bytesIn c = returns c ClientToTarget \<and> bytesOut c = returns c TargetToClient
              \<and> adds TotalBytes (trace c) = [bytesIn c + bytesOut c]
              \<and> (Handler, Closed Client) \<in> set (trace c)
              \<and> (Handler, Closed Target) \<in> set (trace c))"
proof -
  have "pc c Handler < 19 \<or> pc c Handler = 19 \<or> pc c Handler = 20"
    using assms by (auto simp: inv_chan_def)
  then show ?thesis
    using assms
    by (elim disjE)
       (simp_all add: inv_chan_def accounted_def finished_def mem_events_of chan_defs)
qed

lemma failed_bytes:
  assumes "inv_failed c"
  shows "\<not> dial_ok c \<and> bytesIn c = 0 \<and> bytesOut c = 0 \<and> \<not> accounted c"
proof -
  have "pc c Handler = 0 \<or> pc c Handler = 1 \<or> pc c Handler = 2 \<or> pc c Handler = 3
        \<or> pc c Handler = 4 \<or> pc c Handler = 5"
    using assms by (auto simp: inv_failed_def)
  then show ?thesis
    using assms
    by (elim disjE) (simp_all add: inv_failed_def accounted_def handler_events_failed_def)
qed

text \<open>The invariant of any connection of a proxy running one of the two programs.\<close>

lemma served_inv:
  assumes "handler = handleConnection_k8s \<or> handler = handleConnection_chan"
    and "c \<in> set (conns (run_proxy sched (serve handler envs cs)))"
  shows "inv_k8s c \<or> inv_chan c \<or> inv_failed c"
proof -
  let ?J = "\<lambda>c. inv_k8s c \<or> inv_chan c \<or> inv_failed c"
  have step: "\<And>th c. ?J c \<Longrightarrow> ?J (conn_step th c)"
    using inv_k8s_step inv_chan_step inv_failed_step by blast
  have "\<forall>c\<in>set (conns (serve handler envs cs)). ?J c"
    using assms(1) inv_k8s_accept inv_chan_accept inv_failed_accept
    by (auto simp: serve_def) (metis (full_types))+
  from run_proxy_conns [of ?J, OF step this] assms(2) show ?thesis by blast
qed

lemma served_bytes:
  assumes "inv_k8s c \<or> inv_chan c \<or> inv_failed c"
  shows "(finished c \<and> dial_ok c \<longrightarrow> accounted c)
         \<and> (\<not> dial_ok c \<longrightarrow> bytesIn c = 0 \<and> bytesOut c = 0 \<and> \<not> accounted c)
         \<and> (accounted c \<longrightarrow>
              bytesIn c = returns c ClientToTarget \<and> bytesOut c = returns c TargetToClient
              \<and> adds TotalBytes (trace c) = [bytesIn c + bytesOut c]
              \<and> (Handler, Closed Client) \<in> set (trace c)
              \<and> (Handler, Closed Target) \<in> set (trace c))"
  using assms k8s_bytes [of c] chan_bytes [of c] failed_bytes [of c] by blast

lemma total_added_serve: "total_added ctr (conns (serve handler envs cs)) = 0"
  by (induction envs) (auto simp: total_added_def serve_def accept_def added_def)

lemma total_bytes_accounted:
  assumes "\<forall>c\<in>set xs. inv_k8s c \<or> inv_chan c \<or> inv_failed c"
  shows "total_added TotalBytes xs
           = sum_list (map (\<lambda>c. if accounted c then bytesIn c + bytesOut c else 0) xs)"
  using assms
proof (induction xs)
  case Nil
  then show ?case by (simp add: total_added_def)
next
  case (Cons c xs)
  have "added TotalBytes (trace c) = (if accounted c then bytesIn c + bytesOut c else 0)"
    using served_bytes [of c] Cons.prems by (auto simp: added_def accounted_def)
  then show ?case using Cons by (simp add: total_added_def)
qed

text \<open>
  C6: in every interleaving of any number of connections, for either program: a
  connection adds to \<open>totalBytes\<close> at most once, after both connections are closed,
  and what it adds is \<open>bytesIn + bytesOut\<close>, where \<open>bytesIn\<close> and \<open>bytesOut\<close> are
  the counts the two copies returned; a connection whose handler has returned after a
  successful dial has made its addition, one whose dial failed never makes one and has
  both variables at 0.  So \<open>totalBytes\<close> is at any moment its initial value plus the
  sum of \<open>bytesIn + bytesOut\<close> over the connections that have made their addition, and
  once all handlers have returned it is the initial value plus the sum over all
  connections.  (The counters are \<open>int64\<close>: sums are modulo \<open>2 ^ 64\<close>.)
\<close>

theorem total_bytes_is_sum_of_connections:
  assumes "handler = handleConnection_k8s \<or> handler = handleConnection_chan"
  shows "(\<forall>c\<in>set (conns (run_proxy sched (serve handler envs cs))).
            (finished c \<and> dial_ok c \<longrightarrow> accounted c)
            \<and> (\<not> dial_ok c \<longrightarrow> bytesIn c = 0 \<and> bytesOut c = 0 \<and> \<not> accounted c)
            \<and> (accounted c \<longrightarrow>
                 bytesIn c = returns c ClientToTarget \<and> bytesOut c = returns c TargetToClient
                 \<and> adds TotalBytes (trace c) = [bytesIn c + bytesOut c]
                 \<and> (Handler, Closed Client) \<in> set (trace c)
                 \<and> (Handler, Closed Target) \<in> set (trace c)))
         \<and> totalBytes (stats (run_proxy sched (serve handler envs cs)))
             = totalBytes cs
               + sum_list (map (\<lambda>c. if accounted c then bytesIn c + bytesOut c else 0)
                             (conns (run_proxy sched (serve handler envs cs))))
         \<and> ((\<forall>c\<in>set (conns (run_proxy sched (serve handler envs cs))). finished c) \<longrightarrow>
              totalBytes (stats (run_proxy sched (serve handler envs cs)))
                = totalBytes cs
                  + sum_list (map (\<lambda>c. bytesIn c + bytesOut c)
                                (conns (run_proxy sched (serve handler envs cs)))))"
proof -
  let ?p = "run_proxy sched (serve handler envs cs)"
  have inv: "\<forall>c\<in>set (conns ?p). inv_k8s c \<or> inv_chan c \<or> inv_failed c"
    using served_inv [OF assms] by blast
  have each: "\<forall>c\<in>set (conns ?p).
            (finished c \<and> dial_ok c \<longrightarrow> accounted c)
            \<and> (\<not> dial_ok c \<longrightarrow> bytesIn c = 0 \<and> bytesOut c = 0 \<and> \<not> accounted c)
            \<and> (accounted c \<longrightarrow>
                 bytesIn c = returns c ClientToTarget \<and> bytesOut c = returns c TargetToClient
                 \<and> adds TotalBytes (trace c) = [bytesIn c + bytesOut c]
                 \<and> (Handler, Closed Client) \<in> set (trace c)
                 \<and> (Handler, Closed Target) \<in> set (trace c))"
    using inv served_bytes by blast
  have "read_counter TotalBytes (stats ?p) - total_added TotalBytes (conns ?p)
          = read_counter TotalBytes (stats (serve handler envs cs))
            - total_added TotalBytes (conns (serve handler envs cs))"
    by (rule run_proxy_stats)
  moreover have "read_counter TotalBytes (stats (serve handler envs cs)) = totalBytes cs"
    by (simp add: serve_def read_counter_def)
  ultimately have "read_counter TotalBytes (stats ?p)
      = totalBytes cs + total_added TotalBytes (conns ?p)"
    by (simp add: total_added_serve diff_eq_eq)
  then have "totalBytes (stats ?p) = totalBytes cs + total_added TotalBytes (conns ?p)"
    by (simp add: read_counter_def)
  then have total: "totalBytes (stats ?p)
      = totalBytes cs
        + sum_list (map (\<lambda>c. if accounted c then bytesIn c + bytesOut c else 0) (conns ?p))"
    using total_bytes_accounted [OF inv] by simp
  have "(\<forall>c\<in>set (conns ?p). finished c) \<longrightarrow>
          map (\<lambda>c. if accounted c then bytesIn c + bytesOut c else 0) (conns ?p)
            = map (\<lambda>c. bytesIn c + bytesOut c) (conns ?p)"
    using each by (auto intro!: map_cong)
  then show ?thesis using each total by presburger
qed

lemma two_served_conns:
  "map (\<lambda>c. (finished c, dial_ok c, bytesIn c, bytesOut c)) (conns two_served)
     = [(True, True, 10, 20), (True, False, 0, 0)]"
  by (simp add: two_served_def two_connections_def run_proxy_def proxy_step_def serve_def
                thread_step_def accept_def finished_def handleConnection_k8s_def
                upstream_k8s_def downstream_k8s_def)

theorem total_bytes_is_sum_of_connections_witness:
  "map (\<lambda>c. (finished c, dial_ok c, bytesIn c, bytesOut c)) (conns two_served)
     = [(True, True, 10, 20), (True, False, 0, 0)]
   \<and> totalBytes (stats two_served) = 130"
proof -
  have a: "handleConnection_k8s = handleConnection_k8s
           \<or> handleConnection_k8s = handleConnection_chan"
    by simp
  obtain c1 c2 where c: "conns two_served = [c1, c2]"
    using two_served_conns by (cases "conns two_served") auto
  then have f: "finished c1" "finished c2" "bytesIn c1 + bytesOut c1 = 30"
      "bytesIn c2 + bytesOut c2 = 0"
    using two_served_conns by simp_all
  from total_bytes_is_sum_of_connections
         [OF a, of two_connections "[(True, 10, 20), (False, 0, 0)]" busy_counters]
  have "(\<forall>c\<in>set (conns two_served). finished c) \<longrightarrow>
          totalBytes (stats two_served)
            = totalBytes busy_counters
              + sum_list (map (\<lambda>c. bytesIn c + bytesOut c) (conns two_served))"
    unfolding two_served_def by blast
  then show ?thesis
    using c f two_served_conns by (simp add: busy_counters_def)
qed

text \<open>A connection evolves by its own steps only, whatever the other connections do.\<close>

lemma conns_proxy_step:
  "conns (proxy_step it p)
     = (if fst it < length (conns p)
        then (conns p)[fst it := conn_step (snd it) (conns p ! fst it)] else conns p)"
  by (auto simp: proxy_step_def conn_step_def split: option.splits)

lemma single_run_proxy:
  "conns (run_proxy sched \<lparr>stats = cs, conns = [c]\<rparr>)
     = [run_conn (map snd (filter (\<lambda>it. fst it = 0) sched)) c]"
  unfolding run_proxy_def run_conn_def
proof (induction sched arbitrary: cs c)
  case Nil
  then show ?case by simp
next
  case (Cons it sched)
  have "\<exists>cs'. proxy_step it \<lparr>stats = cs, conns = [c]\<rparr>
          = \<lparr>stats = cs', conns = [if fst it = 0 then conn_step (snd it) c else c]\<rparr>"
    by (auto simp: proxy_step_def conn_step_def split: option.splits)
  then obtain cs' where
    "proxy_step it \<lparr>stats = cs, conns = [c]\<rparr>
       = \<lparr>stats = cs', conns = [if fst it = 0 then conn_step (snd it) c else c]\<rparr>" ..
  then show ?case using Cons.IH by simp
qed

lemma failed_progress:
  assumes "inv_failed c"
  shows "pc (conn_step th c) Handler
           = (if th = Handler \<and> pc c Handler < 5 then Suc (pc c Handler) else pc c Handler)"
proof (cases th)
  case Handler
  have "pc c Handler = 0 \<or> pc c Handler = 1 \<or> pc c Handler = 2 \<or> pc c Handler = 3
        \<or> pc c Handler = 4 \<or> pc c Handler = 5"
    using assms by (auto simp: inv_failed_def)
  then show ?thesis
    using assms Handler
    by (elim disjE)
       (simp_all add: inv_failed_def conn_step_def thread_step_def handleConnection_k8s_def)
next
  case Upstream
  then show ?thesis using assms by (simp add: conn_step_def thread_step_def inv_failed_def)
next
  case Downstream
  then show ?thesis using assms by (simp add: conn_step_def thread_step_def inv_failed_def)
qed

lemma failed_run_progress:
  assumes "inv_failed c"
  shows "pc (run_conn sched c) Handler
           = min 5 (pc c Handler + length (filter (\<lambda>th. th = Handler) sched))"
  using assms unfolding run_conn_def
proof (induction sched arbitrary: c)
  case Nil
  then show ?case by (simp add: inv_failed_def)
next
  case (Cons th sched)
  have "inv_failed (conn_step th c)" using Cons.prems by (rule inv_failed_step)
  from Cons.IH [OF this] failed_progress [OF Cons.prems, of th] show ?case
    by (auto simp: min_def)
qed

lemma failed_finished:
  assumes "inv_failed c" and "finished c"
  shows "trace c = map (Pair Handler) handler_events_failed"
  using assms
  by (simp add: inv_failed_def finished_def handleConnection_k8s_def handler_events_failed_def)

lemma failed_finished_added:
  assumes "inv_failed c" and "finished c"
  shows "added TotalConns (trace c) = 1 \<and> added ActiveConns (trace c) = 0
         \<and> added TotalBytes (trace c) = 0"
  by (simp add: failed_finished [OF assms] added_def handler_events_failed_def)

text \<open>
  C4: a proxy, running either program, that handles one connection whose dial fails.
  When the handler has returned, whatever the schedule, the connection's events are
  exactly: \<open>totalConns\<close> incremented, \<open>activeConns\<close> incremented, the one failed dial, the
  client connection closed, \<open>activeConns\<close> decremented; there is no second dial and no
  copy; \<open>totalConns\<close> is one more than before, \<open>activeConns\<close> and \<open>totalBytes\<close> are what
  they were.  The handler never blocks: it has returned as soon as it has been scheduled
  five times.
\<close>

theorem failed_dial_closes_client:
  assumes "handler = handleConnection_k8s \<or> handler = handleConnection_chan"
  shows "(finished (conns (run_proxy sched (serve handler [(False, r_in, r_out)] cs)) ! 0) \<longrightarrow>
            trace (conns (run_proxy sched (serve handler [(False, r_in, r_out)] cs)) ! 0)
              = map (Pair Handler)
                  [Added TotalConns 1, Added ActiveConns 1, Dialed False, Closed Client,
                   Added ActiveConns (- 1)]
            \<and> totalConns (stats (run_proxy sched (serve handler [(False, r_in, r_out)] cs)))
                = totalConns cs + 1
            \<and> activeConns (stats (run_proxy sched (serve handler [(False, r_in, r_out)] cs)))
                = activeConns cs
            \<and> totalBytes (stats (run_proxy sched (serve handler [(False, r_in, r_out)] cs)))
                = totalBytes cs)
         \<and> (5 \<le> picks (0, Handler) sched \<longrightarrow>
              finished (conns (run_proxy sched (serve handler [(False, r_in, r_out)] cs)) ! 0))"
proof -
  let ?c0 = "accept handler False r_in r_out"
  let ?p = "run_proxy sched (serve handler [(False, r_in, r_out)] cs)"
  let ?s = "map snd (filter (\<lambda>it. fst it = 0) sched)"
  have s: "serve handler [(False, r_in, r_out)] cs = \<lparr>stats = cs, conns = [?c0]\<rparr>"
    by (simp add: serve_def)
  have c: "conns ?p = [run_conn ?s ?c0]"
    unfolding s by (rule single_run_proxy)
  have i0: "inv_failed ?c0" using assms inv_failed_accept by auto
  have i: "inv_failed (run_conn ?s ?c0)"
    using run_conn_inv [of inv_failed, OF inv_failed_step i0] .
  have st: "read_counter ctr (stats ?p) = read_counter ctr cs + added ctr (trace (run_conn ?s ?c0))"
    for ctr
  proof -
    have "read_counter ctr (stats ?p) - total_added ctr (conns ?p)
            = read_counter ctr (stats (serve handler [(False, r_in, r_out)] cs))
              - total_added ctr (conns (serve handler [(False, r_in, r_out)] cs))"
      by (rule run_proxy_stats)
    moreover have "read_counter ctr (stats (serve handler [(False, r_in, r_out)] cs))
                     = read_counter ctr cs"
      by (simp add: serve_def)
    moreover have "total_added ctr (conns ?p) = added ctr (trace (run_conn ?s ?c0))"
      by (simp add: c total_added_def)
    ultimately show ?thesis
      by (simp add: total_added_serve diff_eq_eq)
  qed
  have fin: "finished (run_conn ?s ?c0) \<longrightarrow>
            trace (run_conn ?s ?c0) = map (Pair Handler) handler_events_failed
            \<and> totalConns (stats ?p) = totalConns cs + 1
            \<and> activeConns (stats ?p) = activeConns cs
            \<and> totalBytes (stats ?p) = totalBytes cs"
  proof
    assume "finished (run_conn ?s ?c0)"
    from failed_finished [OF i this] failed_finished_added [OF i this]
    show "trace (run_conn ?s ?c0) = map (Pair Handler) handler_events_failed
            \<and> totalConns (stats ?p) = totalConns cs + 1
            \<and> activeConns (stats ?p) = activeConns cs
            \<and> totalBytes (stats ?p) = totalBytes cs"
      using st [of TotalConns] st [of ActiveConns] st [of TotalBytes]
      by (simp add: read_counter_def)
  qed
  have "length (filter (\<lambda>th. th = Handler) ?s) = picks (0, Handler) sched"
    unfolding picks_def by (induction sched) auto
  moreover have "pc ?c0 Handler = 0" by (simp add: accept_def)
  moreover have "length (code (run_conn ?s ?c0) Handler) = 5"
    using i by (simp add: inv_failed_def handleConnection_k8s_def)
  ultimately have live: "5 \<le> picks (0, Handler) sched \<longrightarrow> finished (run_conn ?s ?c0)"
    using failed_run_progress [OF i0, of ?s] by (simp add: finished_def)
  show ?thesis
    using fin live by (simp add: c handler_events_failed_def)
qed

theorem failed_dial_closes_client_witness:
  "5 \<le> picks (0, Handler) five_steps
   \<and> finished (conns (run_proxy five_steps
                        (serve handleConnection_k8s [(False, 0, 0)] busy_counters)) ! 0)
   \<and> trace (conns (run_proxy five_steps
                      (serve handleConnection_k8s [(False, 0, 0)] busy_counters)) ! 0)
       = [(Handler, Added TotalConns 1), (Handler, Added ActiveConns 1),
          (Handler, Dialed False), (Handler, Closed Client), (Handler, Added ActiveConns (- 1))]
   \<and> totalConns (stats (run_proxy five_steps
                           (serve handleConnection_k8s [(False, 0, 0)] busy_counters))) = 8
   \<and> activeConns (stats (run_proxy five_steps
                            (serve handleConnection_k8s [(False, 0, 0)] busy_counters))) = 3
   \<and> totalBytes (stats (run_proxy five_steps
                           (serve handleConnection_k8s [(False, 0, 0)] busy_counters))) = 100"
proof -
  have a: "handleConnection_k8s = handleConnection_k8s
           \<or> handleConnection_k8s = handleConnection_chan"
    by simp
  have p: "5 \<le> picks (0, Handler) five_steps"
    by (simp add: picks_def five_steps_def)
  show ?thesis
    using p failed_dial_closes_client [OF a, of five_steps 0 0 busy_counters]
    by (simp add: busy_counters_def)
qed




text \<open>
  C7 for the second \<open>main.go\<close>: in every interleaving of a successfully paired
  connection, no-delay, keep-alive and the keep-alive period are set on both
  connections before either copy is started.
\<close>

lemma chan_sets_socket_options:
  "options_before_copy (run_conn sched (accept handleConnection_chan True r_in r_out))"
  using run_conn_inv [of inv_chan, OF inv_chan_step inv_chan_accept]
  by (simp add: inv_chan_def)






end
